theory Spec2Isabelle
  imports Main "HOL-Library.Sublist"
begin

section \<open>JavaScript strings\<close>

text \<open>
  A JavaScript string is a sequence of UTF-16 code units. A code unit is modelled by its
  numeric value, so that \<open>length\<close>, \<open>indexOf\<close> and \<open>substring\<close> count what the source
  counts. Literals of the source are written \<open>js ''...''\<close>.
\<close>

type_synonym jschar = nat
type_synonym jsstring = "jschar list"

definition js :: "string \<Rightarrow> jsstring" where
  "js s = map of_char s"

text \<open>
  The characters matched by \<open>\s\<close> in a regular expression and removed by
  \<open>String.prototype.trim\<close>: WhiteSpace and LineTerminator of ECMAScript.
\<close>

definition isSpace :: "jschar \<Rightarrow> bool" where
  "isSpace c \<longleftrightarrow>
     c = 9 \<or> c = 10 \<or> c = 11 \<or> c = 12 \<or> c = 13 \<or> c = 32 \<or> c = 160 \<or> c = 5760 \<or>
     (8192 \<le> c \<and> c \<le> 8202) \<or> c = 8232 \<or> c = 8233 \<or> c = 8239 \<or> c = 8287 \<or>
     c = 12288 \<or> c = 65279"

definition trim :: "jsstring \<Rightarrow> jsstring" where
  "trim s = rev (dropWhile isSpace (rev (dropWhile isSpace s)))"

text \<open>
  \<open>firstOccurrence needle xs\<close> is the least offset at which \<open>needle\<close> occurs in \<open>xs\<close>.
  \<open>indexOf content needle from\<close> is \<open>content.indexOf(needle, from)\<close>, with \<open>None\<close> for
  the source's \<open>-1\<close>.
\<close>

fun firstOccurrence :: "'a list \<Rightarrow> 'a list \<Rightarrow> nat option" where
  "firstOccurrence needle [] = (if needle = [] then Some 0 else None)"
| "firstOccurrence needle (x # xs) =
     (if prefix needle (x # xs) then Some 0
      else map_option Suc (firstOccurrence needle xs))"

definition indexOf :: "'a list \<Rightarrow> 'a list \<Rightarrow> nat \<Rightarrow> nat option" where
  "indexOf content needle from =
     map_option (\<lambda>k. min from (length content) + k)
       (firstOccurrence needle (drop from content))"

text \<open>\<open>content.substring(a, b)\<close>: both indices are clamped and swapped when \<open>a > b\<close>.\<close>

definition substring :: "'a list \<Rightarrow> nat \<Rightarrow> nat \<Rightarrow> 'a list" where
  "substring content a b =
     (let a' = min a (length content); b' = min b (length content)
      in take (max a' b' - min a' b') (drop (min a' b') content))"

text \<open>\<open>content.substring(a)\<close>.\<close>

definition substringFrom :: "'a list \<Rightarrow> nat \<Rightarrow> 'a list" where
  "substringFrom content a = drop a content"

section \<open>The document tree\<close>

datatype attr =
  Italic | Bold | Underline | Strikethrough | Code | Highlight | Small | Subscript | Superscript

datatype listType = Unordered | Ordered

text \<open>
  The objects built by the converter, by their \<open>type\<close> field. A text node carries its
  \<open>value\<close> and the set of attribute keys that were set to \<open>true\<close> on it.
\<close>

datatype node =
    Root "node list"
  | Paragraph "node list"
  | ListNode listType "node list"
  | ListItem "node list"
  | Heading nat "node list"
  | Text jsstring "attr set"

section \<open>parseFormattedContent\<close>

text \<open>The entries of the table \<open>formattingTags\<close>, in the order of the source.\<close>

datatype formattingTag =
  TagEm | TagI | TagStrong | TagB | TagU | TagStrike | TagS | TagDel | TagCode | TagMark | TagSmall | TagSub | TagSup

definition formattingTags :: "formattingTag list" where
  "formattingTags = [TagEm, TagI, TagStrong, TagB, TagU, TagStrike, TagS, TagDel,
     TagCode, TagMark, TagSmall, TagSub, TagSup]"

fun tag_start :: "formattingTag \<Rightarrow> jsstring" where
  "tag_start TagEm = js ''<em>''"
| "tag_start TagI = js ''<i>''"
| "tag_start TagStrong = js ''<strong>''"
| "tag_start TagB = js ''<b>''"
| "tag_start TagU = js ''<u>''"
| "tag_start TagStrike = js ''<strike>''"
| "tag_start TagS = js ''<s>''"
| "tag_start TagDel = js ''<del>''"
| "tag_start TagCode = js ''<code>''"
| "tag_start TagMark = js ''<mark>''"
| "tag_start TagSmall = js ''<small>''"
| "tag_start TagSub = js ''<sub>''"
| "tag_start TagSup = js ''<sup>''"

fun tag_end :: "formattingTag \<Rightarrow> jsstring" where
  "tag_end TagEm = js ''</em>''"
| "tag_end TagI = js ''</i>''"
| "tag_end TagStrong = js ''</strong>''"
| "tag_end TagB = js ''</b>''"
| "tag_end TagU = js ''</u>''"
| "tag_end TagStrike = js ''</strike>''"
| "tag_end TagS = js ''</s>''"
| "tag_end TagDel = js ''</del>''"
| "tag_end TagCode = js ''</code>''"
| "tag_end TagMark = js ''</mark>''"
| "tag_end TagSmall = js ''</small>''"
| "tag_end TagSub = js ''</sub>''"
| "tag_end TagSup = js ''</sup>''"

fun tag_attr :: "formattingTag \<Rightarrow> attr" where
  "tag_attr TagEm = Italic"
| "tag_attr TagI = Italic"
| "tag_attr TagStrong = Bold"
| "tag_attr TagB = Bold"
| "tag_attr TagU = Underline"
| "tag_attr TagStrike = Strikethrough"
| "tag_attr TagS = Strikethrough"
| "tag_attr TagDel = Strikethrough"
| "tag_attr TagCode = Code"
| "tag_attr TagMark = Highlight"
| "tag_attr TagSmall = Small"
| "tag_attr TagSub = Subscript"
| "tag_attr TagSup = Superscript"

text \<open>An entry of \<open>tagPositions\<close>.\<close>

record tagPosition =
  pos_start :: nat
  pos_end :: nat
  contentStart :: nat
  contentEnd :: nat
  pos_attr :: attr

lemma tag_start_nonempty: "tag_start tag \<noteq> []"
  by (cases tag) (simp_all add: js_def)

lemma tag_end_nonempty: "tag_end tag \<noteq> []"
  by (cases tag) (simp_all add: js_def)

lemma firstOccurrence_bound:
  "firstOccurrence needle xs = Some k \<Longrightarrow> k + length needle \<le> length xs"
proof (induction xs arbitrary: k)
  case Nil
  then show ?case by (simp split: if_splits)
next
  case (Cons x xs)
  show ?case
  proof (cases "prefix needle (x # xs)")
    case True
    with Cons.prems prefix_length_le [OF True] show ?thesis by simp
  next
    case False
    with Cons.prems obtain j where "firstOccurrence needle xs = Some j" "k = Suc j"
      by auto
    with Cons.IH show ?thesis by fastforce
  qed
qed

lemma indexOf_bounds:
  assumes "indexOf content needle from = Some i"
  shows "i + length needle \<le> length content" and "min from (length content) \<le> i"
proof -
  from assms obtain k where k: "firstOccurrence needle (drop from content) = Some k"
    and i: "i = min from (length content) + k"
    by (auto simp: indexOf_def)
  from firstOccurrence_bound [OF k] have "k + length needle \<le> length content - from"
    by simp
  with i show "i + length needle \<le> length content" by (simp add: min_def split: if_splits)
  from i show "min from (length content) \<le> i" by simp
qed

lemma indexOf_from_le:
  assumes "indexOf content needle from = Some i" and "needle \<noteq> []"
  shows "from \<le> i"
proof -
  from indexOf_bounds [OF assms(1)] assms(2)
  have "i < length content" "min from (length content) \<le> i"
    by (cases needle; simp)+
  then show ?thesis by (simp add: min_def split: if_splits)
qed

text \<open>
  The body of the \<open>forEach\<close> callback: the \<open>while\<close> loop that scans \<open>content\<close> for the
  occurrences of one tag, from \<open>startIndex\<close>.
\<close>

function scanTag :: "jsstring \<Rightarrow> formattingTag \<Rightarrow> nat \<Rightarrow> tagPosition list" where
  "scanTag content tag startIndex =
     (case indexOf content (tag_start tag) startIndex of
        None \<Rightarrow> []
      | Some si \<Rightarrow>
          (case indexOf content (tag_end tag) (si + length (tag_start tag)) of
             None \<Rightarrow> []
           | Some endIndex \<Rightarrow>
               \<lparr> pos_start = si,
                 pos_end = endIndex + length (tag_end tag),
                 contentStart = si + length (tag_start tag),
                 contentEnd = endIndex,
                 pos_attr = tag_attr tag \<rparr>
               # scanTag content tag (endIndex + length (tag_end tag))))"
  by pat_completeness auto
termination
proof (relation "measure (\<lambda>(content, tag, startIndex). length content - startIndex)")
  show "wf (measure (\<lambda>(content, tag, startIndex). length content - startIndex))"
    by simp
next
  fix content :: jsstring and tag startIndex si endIndex
  assume s: "indexOf content (tag_start tag) startIndex = Some si"
    and e: "indexOf content (tag_end tag) (si + length (tag_start tag)) = Some endIndex"
  from indexOf_from_le [OF s tag_start_nonempty] have "startIndex \<le> si" .
  moreover from indexOf_from_le [OF e tag_end_nonempty]
  have "si + length (tag_start tag) \<le> endIndex" .
  moreover from indexOf_bounds(1) [OF e]
  have "endIndex + length (tag_end tag) \<le> length content" .
  moreover have "Suc 0 \<le> length (tag_end tag)"
    using tag_end_nonempty [of tag] by (cases "tag_end tag") simp_all
  ultimately show "((content, tag, endIndex + length (tag_end tag)), (content, tag, startIndex))
      \<in> measure (\<lambda>(content, tag, startIndex). length content - startIndex)"
    by simp
qed

declare scanTag.simps [simp del]

definition findTagPositions :: "jsstring \<Rightarrow> tagPosition list" where
  "findTagPositions content = concat (map (\<lambda>tag. scanTag content tag 0) formattingTags)"

text \<open>The \<open>for ... of\<close> loop over the sorted positions, with \<open>lastIndex\<close> as its state,
  followed by the emission of the remaining text.\<close>

fun emitRuns :: "jsstring \<Rightarrow> nat \<Rightarrow> tagPosition list \<Rightarrow> node list" where
  "emitRuns content lastIndex [] =
     (if lastIndex < length content then
        (let textAfter = substringFrom content lastIndex
         in if textAfter \<noteq> [] then [Text textAfter {}] else [])
      else [])"
| "emitRuns content lastIndex (pos # rest) =
     (if pos_start pos > lastIndex then
        (let textBefore = substring content lastIndex (pos_start pos)
         in if textBefore \<noteq> [] then [Text textBefore {}] else [])
      else [])
     @ Text (substring content (contentStart pos) (contentEnd pos)) {pos_attr pos}
     # emitRuns content (pos_end pos) rest"

text \<open>
  \<open>parseFormattedContent content childrenArray\<close> pushes nodes on \<open>childrenArray\<close>; the
  model returns the nodes pushed. \<open>Array.prototype.sort\<close> is stable, as \<open>sort_key\<close> is.
\<close>

definition parseFormattedContent :: "jsstring \<Rightarrow> node list" where
  "parseFormattedContent content =
     (let tagPositions = findTagPositions content
      in if length tagPositions = 0 then [Text content {}]
         else emitRuns content 0 (sort_key pos_start tagPositions))"

section \<open>The block patterns\<close>

text \<open>
  Every block is found with a regular expression of one shape,
  \<^verbatim>\<open>/<TAG(?:\s[^>]*)?>([\s\S]*?)<\/TAG>/g\<close>, where \<open>TAG\<close> is \<open>p\<close>, \<open>ul\<close>, \<open>ol\<close>, \<open>li\<close> or
  \<open>h1\<close> to \<open>h6\<close>. The model follows the backtracking matcher on this shape.

  \<open>matchAttrs r\<close> is \<^verbatim>\<open>(?:\s[^>]*)?>\<close> on the text \<open>r\<close> that follows \<open><TAG\<close>: the number of
  characters consumed, the closing \<open>>\<close> included. The optional group is tried first; it
  needs a white-space character, after which the greedy \<open>[^>]*\<close> runs to the first \<open>>\<close>
  (giving characters back cannot help, since the character given back is not \<open>>\<close>).
  Without the group, the next character has to be \<open>>\<close> itself. The two ways exclude
  each other, so the open tag is matched in at most one way, and a failure of the rest of
  the pattern is a failure at this position.
\<close>

definition matchAttrs :: "jsstring \<Rightarrow> nat option" where
  "matchAttrs r =
     (case r of
        [] \<Rightarrow> None
      | c # r' \<Rightarrow>
          (case (if isSpace c then map_option (\<lambda>k. k + 2) (firstOccurrence (js ''>'') r')
                 else None) of
             Some n \<Rightarrow> Some n
           | None \<Rightarrow> (if [c] = js ''>'' then Some 1 else None)))"

definition openTag :: "jsstring \<Rightarrow> jsstring" where
  "openTag tag = js ''<'' @ tag"

definition closeTag :: "jsstring \<Rightarrow> jsstring" where
  "closeTag tag = js ''</'' @ tag @ js ''>''"

text \<open>
  \<open>matchHere tag u\<close> is the match of the pattern at the head of \<open>u\<close>: the length of the
  match and the text of group 1. The lazy \<open>[\s\S]*?\<close> stops at the first closing tag.
\<close>

definition matchHere :: "jsstring \<Rightarrow> jsstring \<Rightarrow> (nat \<times> jsstring) option" where
  "matchHere tag u =
     (if prefix (openTag tag) u then
        (case matchAttrs (drop (length (openTag tag)) u) of
           None \<Rightarrow> None
         | Some a \<Rightarrow>
             (let cs = length (openTag tag) + a
              in case firstOccurrence (closeTag tag) (drop cs u) of
                   None \<Rightarrow> None
                 | Some e \<Rightarrow> Some (cs + e + length (closeTag tag), take e (drop cs u))))
      else None)"

text \<open>The leftmost position of \<open>u\<close> at which the pattern matches.\<close>

fun searchFrom :: "jsstring \<Rightarrow> jsstring \<Rightarrow> (nat \<times> nat \<times> jsstring) option" where
  "searchFrom tag [] = None"
| "searchFrom tag (x # xs) =
     (case matchHere tag (x # xs) of
        Some (len, group1) \<Rightarrow> Some (0, len, group1)
      | None \<Rightarrow> map_option (\<lambda>(i, len, group1). (Suc i, len, group1)) (searchFrom tag xs))"

text \<open>
  \<open>regex.exec(s)\<close> of a global expression whose \<open>lastIndex\<close> is given: the index of the
  match, the new \<open>lastIndex\<close> (the end of the match) and group 1; \<open>None\<close> is \<open>null\<close>.
\<close>

definition regexExec :: "jsstring \<Rightarrow> jsstring \<Rightarrow> nat \<Rightarrow> (nat \<times> nat \<times> jsstring) option" where
  "regexExec tag s lastIndex =
     (if lastIndex > length s then None
      else map_option (\<lambda>(i, len, group1). (lastIndex + i, lastIndex + i + len, group1))
             (searchFrom tag (drop lastIndex s)))"

lemma matchAttrs_bounds:
  assumes "matchAttrs r = Some a"
  shows "0 < a" and "a \<le> length r"
proof -
  from assms obtain c r' where r: "r = c # r'"
    by (cases r) (simp_all add: matchAttrs_def)
  show "0 < a" using assms r
    by (auto simp: matchAttrs_def split: if_splits option.splits)
  show "a \<le> length r"
  proof (cases "isSpace c \<and> firstOccurrence (js ''>'') r' \<noteq> None")
    case True
    then obtain k where k: "firstOccurrence (js ''>'') r' = Some k" by auto
    with True assms r have "a = k + 2" by (simp add: matchAttrs_def)
    moreover from firstOccurrence_bound [OF k] have "k + 1 \<le> length r'"
      by (simp add: js_def)
    ultimately show ?thesis using r by simp
  next
    case False
    with assms r have "a = 1"
      by (auto simp: matchAttrs_def split: if_splits option.splits)
    with r show ?thesis by simp
  qed
qed

lemma matchHere_bounds:
  assumes "matchHere tag u = Some (len, group1)"
  shows "0 < len" and "len \<le> length u"
proof -
  from assms have p: "prefix (openTag tag) u"
    by (auto simp: matchHere_def split: if_splits)
  with assms obtain a where a: "matchAttrs (drop (length (openTag tag)) u) = Some a"
    by (auto simp: matchHere_def split: option.splits)
  define cs where "cs = length (openTag tag) + a"
  from assms p a obtain e where e: "firstOccurrence (closeTag tag) (drop cs u) = Some e"
    and len: "len = cs + e + length (closeTag tag)"
    by (auto simp: matchHere_def cs_def Let_def split: option.splits)
  from matchAttrs_bounds [OF a] prefix_length_le [OF p] have "0 < a" "cs \<le> length u"
    by (simp_all add: cs_def)
  with len show "0 < len" by (simp add: cs_def)
  from firstOccurrence_bound [OF e] have "e + length (closeTag tag) \<le> length u - cs"
    by simp
  with len \<open>cs \<le> length u\<close> show "len \<le> length u" by simp
qed

lemma searchFrom_bounds:
  "searchFrom tag u = Some (i, len, group1) \<Longrightarrow> 0 < len \<and> i + len \<le> length u"
proof (induction u arbitrary: i)
  case Nil
  then show ?case by simp
next
  case (Cons x xs)
  show ?case
  proof (cases "matchHere tag (x # xs)")
    case (Some m)
    with Cons.prems have "matchHere tag (x # xs) = Some (len, group1)" "i = 0"
      by (auto split: prod.splits)
    with matchHere_bounds [of tag "x # xs" len group1] show ?thesis by simp
  next
    case None
    with Cons.prems obtain j where "searchFrom tag xs = Some (j, len, group1)" "i = Suc j"
      by auto
    with Cons.IH show ?thesis by fastforce
  qed
qed

lemma regexExec_bounds:
  assumes "regexExec tag s lastIndex = Some (idx, lastIndex', group1)"
  shows "lastIndex \<le> idx" and "idx < lastIndex'" and "lastIndex' \<le> length s"
proof -
  from assms have le: "lastIndex \<le> length s"
    by (auto simp: regexExec_def split: if_splits)
  with assms obtain i len where s: "searchFrom tag (drop lastIndex s) = Some (i, len, group1)"
    and idx: "idx = lastIndex + i" and li: "lastIndex' = lastIndex + i + len"
    by (auto simp: regexExec_def)
  from searchFrom_bounds [OF s] have "0 < len" "i + len \<le> length s - lastIndex"
    by simp_all
  with idx li le show "lastIndex \<le> idx" "idx < lastIndex'" "lastIndex' \<le> length s"
    by simp_all
qed

text \<open>
  The loop \<open>while ((match = regex.exec(s)) !== null)\<close>: the matches it visits, each as the
  pair of \<open>match.index\<close> and \<open>match[1]\<close>.
\<close>

function execAll :: "jsstring \<Rightarrow> jsstring \<Rightarrow> nat \<Rightarrow> (nat \<times> jsstring) list" where
  "execAll tag s lastIndex =
     (case regexExec tag s lastIndex of
        None \<Rightarrow> []
      | Some (idx, lastIndex', group1) \<Rightarrow> (idx, group1) # execAll tag s lastIndex')"
  by pat_completeness auto
termination
proof (relation "measure (\<lambda>(tag, s, lastIndex). length s - lastIndex)")
  show "wf (measure (\<lambda>(tag, s, lastIndex). length s - lastIndex))"
    by simp
next
  fix tag s :: jsstring and lastIndex idx lastIndex' group1 and x :: "nat \<times> nat \<times> jsstring"
    and y :: "nat \<times> jsstring"
  assume "regexExec tag s lastIndex = Some x" "(idx, y) = x" "(lastIndex', group1) = y"
  then have "regexExec tag s lastIndex = Some (idx, lastIndex', group1)" by simp
  from regexExec_bounds [OF this]
  show "((tag, s, lastIndex'), (tag, s, lastIndex))
      \<in> measure (\<lambda>(tag, s, lastIndex). length s - lastIndex)"
    by simp
qed

declare execAll.simps [simp del]

section \<open>htmlToJson\<close>

text \<open>The body of the paragraph loop: the node built from \<open>match[1]\<close>.\<close>

definition paragraphNode :: "jsstring \<Rightarrow> node" where
  "paragraphNode paragraphContent =
     (if trim paragraphContent = [] \<or> trim paragraphContent = js ''<br>''
      then Paragraph [Text (js '' '') {}]
      else Paragraph (parseFormattedContent paragraphContent))"

text \<open>
  Each function below pushes on the \<open>children\<close> of the object it is given; the model takes
  the array before the call and returns the array after it.
\<close>

definition processParagraphs :: "jsstring \<Rightarrow> node list \<Rightarrow> node list" where
  "processParagraphs htmlString children =
     children @ map (\<lambda>(idx, paragraphContent). paragraphNode paragraphContent)
                  (execAll (js ''p'') htmlString 0)"

definition processListItems :: "jsstring \<Rightarrow> node list \<Rightarrow> node list" where
  "processListItems listContent children =
     children @ map (\<lambda>(idx, itemContent). ListItem (parseFormattedContent itemContent))
                  (execAll (js ''li'') listContent 0)"

definition processLists :: "jsstring \<Rightarrow> node list \<Rightarrow> node list" where
  "processLists htmlString children =
     children
     @ map (\<lambda>(idx, listContent). ListNode Unordered (processListItems listContent []))
         (execAll (js ''ul'') htmlString 0)
     @ map (\<lambda>(idx, listContent). ListNode Ordered (processListItems listContent []))
         (execAll (js ''ol'') htmlString 0)"

text \<open>The tag name \<open>h${level}\<close>, for the one-digit levels of the loop.\<close>

definition headingTag :: "nat \<Rightarrow> jsstring" where
  "headingTag level = js ''h'' @ [of_char CHR ''0'' + level]"

definition processHeadings :: "jsstring \<Rightarrow> node list \<Rightarrow> node list" where
  "processHeadings htmlString children =
     children
     @ concat (map (\<lambda>level.
                 map (\<lambda>(idx, headingContent). Heading level (parseFormattedContent headingContent))
                   (execAll (headingTag level) htmlString 0))
               [1..<7])"

text \<open>
  The \<open>try\<close> block of \<open>htmlToJson\<close> runs three passes over \<open>result.children\<close>. A pass
  that raises leaves the children it has pushed so far and the error; the \<open>catch\<close>
  clause logs the error, and \<open>result\<close> is returned in both cases.
\<close>

datatype error = TypeError | OtherError

type_synonym 'a pass = "'a \<Rightarrow> node list \<Rightarrow> node list \<times> error option"

definition htmlToJson_try :: "'a pass \<Rightarrow> 'a pass \<Rightarrow> 'a pass \<Rightarrow> 'a \<Rightarrow> node" where
  "htmlToJson_try paragraphPass listPass headingPass htmlString =
     (case paragraphPass htmlString [] of
        (children, Some err) \<Rightarrow> Root children
      | (children, None) \<Rightarrow>
          (case listPass htmlString children of
             (children, Some err) \<Rightarrow> Root children
           | (children, None) \<Rightarrow>
               (case headingPass htmlString children of
                  (children, _) \<Rightarrow> Root children)))"

text \<open>On a string, no statement of the three passes raises.\<close>

definition htmlToJson :: "jsstring \<Rightarrow> node" where
  "htmlToJson htmlString =
     htmlToJson_try
       (\<lambda>s children. (processParagraphs s children, None))
       (\<lambda>s children. (processLists s children, None))
       (\<lambda>s children. (processHeadings s children, None))
       htmlString"







section \<open>processCSV\<close>

text \<open>
  A cell of a parsed record is a string or, with a \<open>cast\<close> option of the parser, some
  other value, which has no \<open>trim\<close> method; of such a value the code uses the
  truthiness only. A record is a plain object: the map of its own cells by column name,
  with \<open>Object.prototype\<close> behind it.
\<close>

datatype cell = CellString jsstring | CellOther bool

type_synonym csvRecord = "jsstring \<rightharpoonup> cell"

text \<open>
  The property names of \<open>Object.prototype\<close>. Their values are functions, and the object
  itself for \<open>__proto__\<close>: truthy values without a \<open>trim\<close> method.
\<close>

definition objectPrototypeKeys :: "jsstring list" where
  "objectPrototypeKeys =
     [js ''constructor'', js ''__defineGetter__'', js ''__defineSetter__'',
      js ''hasOwnProperty'', js ''__lookupGetter__'', js ''__lookupSetter__'',
      js ''isPrototypeOf'', js ''propertyIsEnumerable'', js ''toString'', js ''valueOf'',
      js ''__proto__'', js ''toLocaleString'']"

text \<open>
  \<open>name in record\<close> and \<open>record[name]\<close> look at the own properties first and then at
  the prototype; \<open>None\<close> is \<open>undefined\<close>.
\<close>

definition hasProperty :: "csvRecord \<Rightarrow> jsstring \<Rightarrow> bool" where
  "hasProperty record name \<longleftrightarrow> record name \<noteq> None \<or> name \<in> set objectPrototypeKeys"

definition getProperty :: "csvRecord \<Rightarrow> jsstring \<Rightarrow> cell option" where
  "getProperty record name =
     (case record name of
        Some c \<Rightarrow> Some c
      | None \<Rightarrow> (if name \<in> set objectPrototypeKeys then Some (CellOther True) else None))"

datatype logEntry = WarnRowError nat | WarnColumnMissing jsstring

text \<open>
  The \<open>try\<close> block of the row callback, on the copy \<open>newRecord\<close>. \<open>JSON.stringify\<close> is a
  parameter.
\<close>

definition convertCell ::
  "(node \<Rightarrow> jsstring) \<Rightarrow> jsstring \<Rightarrow> csvRecord \<Rightarrow> csvRecord \<Rightarrow> error + csvRecord" where
  "convertCell stringify htmlColumn record newRecord =
     (case getProperty record htmlColumn of
        None \<Rightarrow> Inr newRecord
      | Some (CellString htmlContent) \<Rightarrow>
          (if htmlContent \<noteq> [] \<and> trim htmlContent \<noteq> []
           then Inr (newRecord(htmlColumn \<mapsto> CellString (stringify (htmlToJson htmlContent))))
           else Inr newRecord)
      | Some (CellOther truthy) \<Rightarrow>
          (if truthy then Inl TypeError else Inr newRecord))"

text \<open>The callback of \<open>records.map\<close>: the new record and the warnings it logs.\<close>

definition processRecord ::
  "(node \<Rightarrow> jsstring) \<Rightarrow> jsstring \<Rightarrow> csvRecord \<Rightarrow> nat \<Rightarrow> csvRecord \<times> logEntry list" where
  "processRecord stringify htmlColumn record index =
     (let newRecord = record
      in if hasProperty record htmlColumn then
           (case convertCell stringify htmlColumn record newRecord of
              Inr converted \<Rightarrow> (converted, [])
            | Inl err \<Rightarrow> (newRecord, [WarnRowError (index + 1)]))
         else if index = 0 then (newRecord, [WarnColumnMissing htmlColumn])
         else (newRecord, []))"

definition processRecords ::
  "(node \<Rightarrow> jsstring) \<Rightarrow> jsstring \<Rightarrow> csvRecord list \<Rightarrow> (csvRecord \<times> logEntry list) list" where
  "processRecords stringify htmlColumn records =
     map (\<lambda>(index, record). processRecord stringify htmlColumn record index)
       (enumerate 0 records)"

section \<open>The vocabulary of the properties\<close>

subsection \<open>Occurrences of markers\<close>

text \<open>
  A marker occurs at an offset of the content; the content holds an opening marker of a
  table entry with the closing marker of the same entry somewhere after it; the content
  holds no such pair for any entry of the table.
\<close>

definition occursAt :: "'a list \<Rightarrow> 'a list \<Rightarrow> nat \<Rightarrow> bool" where
  "occursAt content needle i \<longleftrightarrow> i \<le> length content \<and> prefix needle (drop i content)"

definition hasMarkerPair :: "jsstring \<Rightarrow> formattingTag \<Rightarrow> bool" where
  "hasMarkerPair content tag \<longleftrightarrow>
     (\<exists>i j. occursAt content (tag_start tag) i \<and> i + length (tag_start tag) \<le> j \<and>
            occursAt content (tag_end tag) j)"

definition noFormattingMarkers :: "jsstring \<Rightarrow> bool" where
  "noFormattingMarkers content \<longleftrightarrow> (\<forall>tag. \<not> hasMarkerPair content tag)"

subsection \<open>Text runs, their flags and their values\<close>

text \<open>
  The node pushed for a matched span; the attribute keys of a node; the text nodes of a
  tree, from left to right.
\<close>

definition spanRun :: "jsstring \<Rightarrow> tagPosition \<Rightarrow> node" where
  "spanRun content pos = Text (substring content (contentStart pos) (contentEnd pos)) {pos_attr pos}"

fun flags :: "node \<Rightarrow> attr set" where
  "flags (Text v fl) = fl"
| "flags _ = {}"

fun textNodes :: "node \<Rightarrow> node list" where
  "textNodes (Root cs) = concat (map textNodes cs)"
| "textNodes (Paragraph cs) = concat (map textNodes cs)"
| "textNodes (ListNode t cs) = concat (map textNodes cs)"
| "textNodes (ListItem cs) = concat (map textNodes cs)"
| "textNodes (Heading l cs) = concat (map textNodes cs)"
| "textNodes (Text v fl) = [Text v fl]"


text \<open>
  The \<open>value\<close> of a text node. An offset of the content lies in a marker when it is
  inside the opening or the closing marker of one of the spans. The spans are disjoint
  when, in the order of their starts, each begins at or after the end of the one before.
  A span is well formed in the content when its four offsets are ascending and inside
  the content.

  The marker-stripped form of a string follows the words of the specification: the
  string without the occurrences of the opening and closing markers of the table,
  removed from left to right.
\<close>

fun nodeValue :: "node \<Rightarrow> jsstring" where
  "nodeValue (Text v fl) = v"
| "nodeValue _ = []"

definition inMarker :: "tagPosition list \<Rightarrow> nat \<Rightarrow> bool" where
  "inMarker ps i \<longleftrightarrow>
     (\<exists>p \<in> set ps. (pos_start p \<le> i \<and> i < contentStart p) \<or> (contentEnd p \<le> i \<and> i < pos_end p))"

definition spansDisjoint :: "tagPosition list \<Rightarrow> bool" where
  "spansDisjoint ps \<longleftrightarrow> sorted_wrt (\<lambda>p q. pos_end p \<le> pos_start q) ps"

definition wfSpan :: "jsstring \<Rightarrow> tagPosition \<Rightarrow> bool" where
  "wfSpan content p \<longleftrightarrow>
     pos_start p \<le> contentStart p \<and> contentStart p \<le> contentEnd p \<and>
     contentEnd p \<le> pos_end p \<and> pos_end p \<le> length content"

definition allMarkers :: "jsstring list" where
  "allMarkers = map tag_start formattingTags @ map tag_end formattingTags"

definition markerAt :: "jsstring \<Rightarrow> jsstring option" where
  "markerAt u = find (\<lambda>m. prefix m u) allMarkers"

lemma markerAt_nonempty: "markerAt u = Some m \<Longrightarrow> m \<noteq> []"
proof -
  assume "markerAt u = Some m"
  then have "m \<in> set allMarkers"
    by (auto simp: markerAt_def find_Some_iff)
  then obtain tag where "m = tag_start tag \<or> m = tag_end tag"
    by (auto simp: allMarkers_def)
  with tag_start_nonempty [of tag] tag_end_nonempty [of tag] show ?thesis by auto
qed

function (sequential) stripMarkers :: "jsstring \<Rightarrow> jsstring" where
  "stripMarkers [] = []"
| "stripMarkers (c # cs) =
     (case markerAt (c # cs) of
        Some m \<Rightarrow> stripMarkers (drop (length m) (c # cs))
      | None \<Rightarrow> c # stripMarkers cs)"
  by pat_completeness auto
termination
proof (relation "measure length")
  show "wf (measure length)" by simp
next
  fix c :: jschar and cs m
  assume "markerAt (c # cs) = Some m"
  from markerAt_nonempty [OF this] show "(drop (length m) (c # cs), c # cs) \<in> measure length"
    by (cases m) simp_all
next
  fix c :: jschar and cs
  show "(cs, c # cs) \<in> measure length" by simp
qed

subsection \<open>The children of the root\<close>

text \<open>
  The children of a root; the place of a top-level node in the order of the passes; the
  tag names of the block patterns; a string in which the pattern of a tag matches at some
  offset; a string in which no block pattern matches; a paragraph content that is empty,
  white space only, or the line-break tag.
\<close>

fun rootChildren :: "node \<Rightarrow> node list" where
  "rootChildren (Root cs) = cs"
| "rootChildren _ = []"

fun passRank :: "node \<Rightarrow> nat" where
  "passRank (Paragraph cs) = 0"
| "passRank (ListNode Unordered cs) = 1"
| "passRank (ListNode Ordered cs) = 2"
| "passRank (Heading level cs) = 2 + level"
| "passRank _ = 0"

definition blockTags :: "jsstring list" where
  "blockTags = [js ''p'', js ''ul'', js ''ol''] @ map headingTag [1..<7]"

definition hasBlock :: "jsstring \<Rightarrow> jsstring \<Rightarrow> bool" where
  "hasBlock tag s \<longleftrightarrow> (\<exists>i. matchHere tag (drop i s) \<noteq> None)"

definition noRecognizedBlock :: "jsstring \<Rightarrow> bool" where
  "noRecognizedBlock s \<longleftrightarrow> (\<forall>tag \<in> set blockTags. \<not> hasBlock tag s)"

definition blankContent :: "jsstring \<Rightarrow> bool" where
  "blankContent c \<longleftrightarrow> (\<forall>ch \<in> set c. isSpace ch) \<or> c = js ''<br>''"

section \<open>Evaluation on literal inputs\<close>

text \<open>The equations that compute the converter on a literal string, for the simplifier.\<close>

lemmas eval_segmenter =
  js_def parseFormattedContent_def findTagPositions_def formattingTags_def scanTag.simps
  indexOf_def substring_def substringFrom_def

lemmas eval_html =
  htmlToJson_def htmlToJson_try_def processParagraphs_def processLists_def
  processListItems_def processHeadings_def execAll.simps regexExec_def matchHere_def
  matchAttrs_def openTag_def closeTag_def headingTag_def paragraphNode_def trim_def
  isSpace_def upt_rec eval_segmenter

section \<open>The inline-run segmenter\<close>

lemma firstOccurrence_Some_prefix:
  "firstOccurrence needle xs = Some k \<Longrightarrow> prefix needle (drop k xs)"
proof (induction xs arbitrary: k)
  case Nil
  then show ?case by (simp split: if_splits)
next
  case (Cons x xs)
  then show ?case by (auto split: if_splits)
qed

lemma firstOccurrence_least:
  "firstOccurrence needle xs = Some k \<Longrightarrow> j < k \<Longrightarrow> \<not> prefix needle (drop j xs)"
proof (induction xs arbitrary: k j)
  case Nil
  then show ?case by (simp split: if_splits)
next
  case (Cons x xs)
  show ?case
  proof (cases "prefix needle (x # xs)")
    case True
    with Cons.prems show ?thesis by simp
  next
    case False
    with Cons.prems obtain k' where k': "firstOccurrence needle xs = Some k'" "k = Suc k'"
      by auto
    show ?thesis
    proof (cases j)
      case 0
      with False show ?thesis by simp
    next
      case (Suc j')
      with Cons.prems k' have "j' < k'" by simp
      from Cons.IH [OF k'(1) this] Suc show ?thesis by simp
    qed
  qed
qed

lemma firstOccurrence_complete:
  "k \<le> length xs \<Longrightarrow> prefix needle (drop k xs) \<Longrightarrow> \<exists>i\<le>k. firstOccurrence needle xs = Some i"
proof (induction xs arbitrary: k)
  case Nil
  then show ?case by simp
next
  case (Cons x xs)
  show ?case
  proof (cases "prefix needle (x # xs)")
    case True
    then show ?thesis by simp
  next
    case False
    with Cons.prems obtain k' where k': "k = Suc k'" by (cases k) auto
    with Cons.prems have "k' \<le> length xs" "prefix needle (drop k' xs)" by simp_all
    from Cons.IH [OF this] obtain i where "i \<le> k'" "firstOccurrence needle xs = Some i"
      by blast
    with False k' show ?thesis by simp
  qed
qed

lemma indexOf_occursAt:
  assumes "indexOf content needle from = Some i"
  shows "occursAt content needle i"
proof -
  from assms obtain k where k: "firstOccurrence needle (drop from content) = Some k"
    and i: "i = min from (length content) + k"
    by (auto simp: indexOf_def)
  from firstOccurrence_Some_prefix [OF k] have p: "prefix needle (drop (k + from) content)"
    by simp
  from indexOf_bounds(1) [OF assms] have le: "i \<le> length content" by simp
  show ?thesis
  proof (cases "from \<le> length content")
    case True
    with i p le show ?thesis by (simp add: occursAt_def min_def add.commute)
  next
    case False
    with k have "k = 0" "needle = []" by (auto split: if_splits)
    with i le show ?thesis by (simp add: occursAt_def)
  qed
qed

lemma indexOf_complete:
  assumes "occursAt content needle j" and "from \<le> j"
  shows "\<exists>i\<le>j. indexOf content needle from = Some i"
proof -
  from assms have j: "j \<le> length content" and p: "prefix needle (drop j content)"
    by (simp_all add: occursAt_def)
  from assms(2) have "drop j content = drop (j - from) (drop from content)" by simp
  with p have "prefix needle (drop (j - from) (drop from content))" by simp
  moreover from j assms(2) have "j - from \<le> length (drop from content)" by simp
  ultimately obtain i where "i \<le> j - from" "firstOccurrence needle (drop from content) = Some i"
    using firstOccurrence_complete by blast
  with assms(2) j show ?thesis by (auto simp: indexOf_def min_def)
qed

lemma scanTag_Nil_iff: "scanTag content tag 0 = [] \<longleftrightarrow> \<not> hasMarkerPair content tag"
proof
  assume e: "scanTag content tag 0 = []"
  show "\<not> hasMarkerPair content tag"
  proof
    assume "hasMarkerPair content tag"
    then obtain i j where i: "occursAt content (tag_start tag) i"
      and ij: "i + length (tag_start tag) \<le> j" and j: "occursAt content (tag_end tag) j"
      by (auto simp: hasMarkerPair_def)
    from indexOf_complete [OF i, of 0] obtain si where si: "si \<le> i"
      "indexOf content (tag_start tag) 0 = Some si" by auto
    from si(1) ij have "si + length (tag_start tag) \<le> j" by simp
    from indexOf_complete [OF j this] obtain ei where
      "indexOf content (tag_end tag) (si + length (tag_start tag)) = Some ei" by auto
    with si(2) have "scanTag content tag 0 \<noteq> []"
      by (subst scanTag.simps) simp
    with e show False by simp
  qed
next
  assume n: "\<not> hasMarkerPair content tag"
  show "scanTag content tag 0 = []"
  proof (rule ccontr)
    assume "scanTag content tag 0 \<noteq> []"
    then obtain si ei where si: "indexOf content (tag_start tag) 0 = Some si"
      and ei: "indexOf content (tag_end tag) (si + length (tag_start tag)) = Some ei"
      by (subst (asm) scanTag.simps) (auto split: option.splits)
    from indexOf_from_le [OF ei tag_end_nonempty] indexOf_occursAt [OF si] indexOf_occursAt [OF ei]
    have "hasMarkerPair content tag" by (auto simp: hasMarkerPair_def)
    with n show False by simp
  qed
qed

lemma set_formattingTags: "set formattingTags = UNIV"
proof -
  have "tag \<in> set formattingTags" for tag
    by (cases tag) (simp_all add: formattingTags_def)
  then show ?thesis by auto
qed

lemma findTagPositions_Nil_iff:
  "findTagPositions content = [] \<longleftrightarrow> noFormattingMarkers content"
  by (simp add: findTagPositions_def noFormattingMarkers_def set_formattingTags scanTag_Nil_iff)

text \<open>
  Claim C5: a content string in which no entry of the table has an opening marker followed
  by its closing marker is segmented into exactly one text run, without a flag, whose
  value is the whole content.
\<close>

theorem C5_plain_text_single_run:
  "noFormattingMarkers content \<Longrightarrow> parseFormattedContent content = [Text content {}]"
  by (simp add: parseFormattedContent_def findTagPositions_Nil_iff)

theorem C5_plain_text_single_run_witness:
  "noFormattingMarkers (js ''a < b'') \<and>
   parseFormattedContent (js ''a < b'') = [Text (js ''a < b'') {}]"
proof -
  have "findTagPositions (js ''a < b'') = []" by code_simp
  then have h: "noFormattingMarkers (js ''a < b'')" by (simp only: findTagPositions_Nil_iff)
  from C5_plain_text_single_run [OF h] h show ?thesis by simp
qed

lemma emitRuns_flagged:
  "filter (\<lambda>n. flags n \<noteq> {}) (emitRuns content lastIndex ps) = map (spanRun content) ps"
  by (induction ps arbitrary: lastIndex) (simp_all add: Let_def spanRun_def)

lemma emitRuns_no_empty_plain: "Text [] {} \<notin> set (emitRuns content lastIndex ps)"
  by (induction ps arbitrary: lastIndex) (simp_all add: Let_def)

text \<open>
  Claim C9: the suppression of empty runs concerns plain text only. The content \<open><b></b>\<close>
  gives one run with the empty value and the flag \<open>bold\<close>; whenever spans are found, no
  unflagged run with the empty value is emitted, and the flagged runs are exactly the runs
  of the spans in the order of their starts, the spans with an empty inner text included.
\<close>

theorem C9_empty_runs:
  assumes "findTagPositions content \<noteq> []"
  shows "parseFormattedContent (js ''<b></b>'') = [Text [] {Bold}] \<and>
         Text [] {} \<notin> set (parseFormattedContent content) \<and>
         filter (\<lambda>n. flags n \<noteq> {}) (parseFormattedContent content) =
           map (spanRun content) (sort_key pos_start (findTagPositions content))"
proof -
  have "parseFormattedContent (js ''<b></b>'') = [Text [] {Bold}]" by code_simp
  with assms show ?thesis
    by (simp add: parseFormattedContent_def emitRuns_flagged emitRuns_no_empty_plain)
qed

theorem C9_empty_runs_witness:
  "findTagPositions (js ''<b></b><i>x</i>'') \<noteq> [] \<and>
   Text [] {} \<notin> set (parseFormattedContent (js ''<b></b><i>x</i>'')) \<and>
   filter (\<lambda>n. flags n \<noteq> {}) (parseFormattedContent (js ''<b></b><i>x</i>'')) =
     [Text [] {Bold}, Text (js ''x'') {Italic}]"
proof -
  have h: "findTagPositions (js ''<b></b><i>x</i>'') \<noteq> []" by code_simp
  have m: "map (spanRun (js ''<b></b><i>x</i>'')) (sort_key pos_start (findTagPositions (js ''<b></b><i>x</i>'')))
    = [Text [] {Bold}, Text (js ''x'') {Italic}]" by code_simp
  from C9_empty_runs [OF h] h m show ?thesis by simp
qed










lemma htmlToJson_children:
  "htmlToJson s = Root (processHeadings s (processLists s (processParagraphs s [])))"
  by (simp add: htmlToJson_def htmlToJson_try_def)






lemma nths_none:
  assumes "\<forall>i<length xs. i \<notin> I"
  shows "nths xs I = []"
proof -
  from assms have "set (nths xs I) = {}" by (auto simp: set_nths)
  then show ?thesis by simp
qed

lemma nths_drop_split:
  assumes "li \<le> m" and "m \<le> length content"
  shows "nths (drop li content) {j. P (j + li)} =
         nths (take (m - li) (drop li content)) {j. P (j + li)}
         @ nths (drop m content) {j. P (j + m)}"
proof -
  have len: "length (take (m - li) (drop li content)) = m - li"
    using assms by simp
  have "drop (m - li) (drop li content) = drop m content"
    using assms by simp
  then have "drop li content = take (m - li) (drop li content) @ drop m content"
    by (metis append_take_drop_id)
  then have "nths (drop li content) {j. P (j + li)} =
      nths (take (m - li) (drop li content) @ drop m content) {j. P (j + li)}"
    by simp
  also have "\<dots> = nths (take (m - li) (drop li content)) {j. P (j + li)}
      @ nths (drop m content) {j. j + (m - li) \<in> {j. P (j + li)}}"
    by (simp only: nths_append len)
  also have "{j. j + (m - li) \<in> {j. P (j + li)}} = {j. P (j + m)}"
    using assms by (simp add: add.assoc)
  finally show ?thesis .
qed

lemma step_keep:
  assumes "li \<le> m" and "m \<le> length content" and "\<And>i. li \<le> i \<Longrightarrow> i < m \<Longrightarrow> P i"
  shows "nths (drop li content) {j. P (j + li)} =
         take (m - li) (drop li content) @ nths (drop m content) {j. P (j + m)}"
proof -
  have "nths (take (m - li) (drop li content)) {j. P (j + li)} = take (m - li) (drop li content)"
    by (rule nths_all) (use assms in auto)
  with nths_drop_split [OF assms(1,2), of P] show ?thesis by simp
qed

lemma step_skip:
  assumes "li \<le> m" and "m \<le> length content" and "\<And>i. li \<le> i \<Longrightarrow> i < m \<Longrightarrow> \<not> P i"
  shows "nths (drop li content) {j. P (j + li)} = nths (drop m content) {j. P (j + m)}"
proof -
  have "nths (take (m - li) (drop li content)) {j. P (j + li)} = []"
    by (rule nths_none) (use assms in auto)
  with nths_drop_split [OF assms(1,2), of P] show ?thesis by simp
qed

lemma substring_seg:
  "a \<le> b \<Longrightarrow> b \<le> length content \<Longrightarrow> substring content a b = take (b - a) (drop a content)"
  by (simp add: substring_def Let_def min_def max_def)

lemma emitRuns_values:
  assumes "li \<le> length content"
    and "\<forall>p \<in> set ps. wfSpan content p"
    and "sorted_wrt (\<lambda>p q. pos_end p \<le> pos_start q) ps"
    and "\<forall>p \<in> set ps. li \<le> pos_start p"
  shows "concat (map nodeValue (emitRuns content li ps)) =
         nths (drop li content) {j. \<not> inMarker ps (j + li)}"
  using assms
proof (induction ps arbitrary: li)
  case Nil
  have "nths (drop li content) {j. \<not> inMarker [] (j + li)} = drop li content"
    by (rule nths_all) (simp add: inMarker_def)
  then show ?case by (simp add: substringFrom_def Let_def)
next
  case (Cons p ps)
  define s cs ce e where "s = pos_start p" and "cs = contentStart p"
    and "ce = contentEnd p" and "e = pos_end p"
  define P where "P = (\<lambda>i. \<not> inMarker (p # ps) i)"
  from Cons.prems have wf: "s \<le> cs" "cs \<le> ce" "ce \<le> e" "e \<le> length content" and li: "li \<le> s"
    by (simp_all add: wfSpan_def s_def cs_def ce_def e_def)
  from Cons.prems have later: "\<And>q. q \<in> set ps \<Longrightarrow> e \<le> pos_start q \<and> wfSpan content q"
    by (simp add: e_def)
  have k1: "P i" if "li \<le> i" "i < s" for i
    unfolding P_def inMarker_def using that wf later
    by (fastforce simp: wfSpan_def s_def cs_def ce_def e_def)
  have k2: "\<not> P i" if "s \<le> i" "i < cs" for i
    unfolding P_def inMarker_def using that by (auto simp: s_def cs_def)
  have k3: "P i" if "cs \<le> i" "i < ce" for i
    unfolding P_def inMarker_def using that wf later
    by (fastforce simp: wfSpan_def s_def cs_def ce_def e_def)
  have k4: "\<not> P i" if "ce \<le> i" "i < e" for i
    unfolding P_def inMarker_def using that by (auto simp: ce_def e_def)
  have k5: "P i \<longleftrightarrow> \<not> inMarker ps i" if "e \<le> i" for i
    unfolding P_def inMarker_def using that wf
    by (auto simp: s_def cs_def ce_def e_def)
  have rhs: "nths (drop li content) {j. P (j + li)} =
      take (s - li) (drop li content) @ take (ce - cs) (drop cs content)
      @ nths (drop e content) {j. \<not> inMarker ps (j + e)}"
  proof -
    have "nths (drop li content) {j. P (j + li)} =
        take (s - li) (drop li content) @ nths (drop s content) {j. P (j + s)}"
      using li wf k1 by (intro step_keep) auto
    also have "nths (drop s content) {j. P (j + s)} = nths (drop cs content) {j. P (j + cs)}"
      using wf k2 by (intro step_skip) auto
    also have "\<dots> = take (ce - cs) (drop cs content) @ nths (drop ce content) {j. P (j + ce)}"
      using wf k3 by (intro step_keep) auto
    also have "nths (drop ce content) {j. P (j + ce)} = nths (drop e content) {j. P (j + e)}"
      using wf k4 by (intro step_skip) auto
    also have "{j. P (j + e)} = {j. \<not> inMarker ps (j + e)}"
      using k5 by simp
    finally show ?thesis .
  qed
  have ih: "concat (map nodeValue (emitRuns content e ps)) =
      nths (drop e content) {j. \<not> inMarker ps (j + e)}"
    using Cons.prems wf later by (intro Cons.IH) auto
  have before: "concat (map nodeValue
      (if pos_start p > li then
         (let textBefore = substring content li (pos_start p)
          in if textBefore \<noteq> [] then [Text textBefore {}] else [])
       else [])) = take (s - li) (drop li content)"
    using li wf by (auto simp: Let_def substring_seg s_def)
  have inner: "substring content (contentStart p) (contentEnd p) = take (ce - cs) (drop cs content)"
    using wf by (simp add: substring_seg cs_def ce_def)
  have "concat (map nodeValue (emitRuns content li (p # ps))) =
      take (s - li) (drop li content) @ take (ce - cs) (drop cs content)
      @ concat (map nodeValue (emitRuns content e ps))"
    using before inner by (simp add: e_def)
  with rhs ih show ?case by (simp add: P_def)
qed

lemma scanTag_wfSpan:
  "pos \<in> set (scanTag content tag startIndex) \<Longrightarrow> wfSpan content pos"
proof (induction content tag startIndex rule: scanTag.induct)
  case (1 content tag startIndex)
  show ?case
  proof (cases "indexOf content (tag_start tag) startIndex")
    case None
    with "1.prems" show ?thesis by (subst (asm) scanTag.simps) simp
  next
    case (Some si)
    show ?thesis
    proof (cases "indexOf content (tag_end tag) (si + length (tag_start tag))")
      case None
      with Some "1.prems" show ?thesis by (subst (asm) scanTag.simps) simp
    next
      case (Some endIndex)
      note si = \<open>indexOf content (tag_start tag) startIndex = Some si\<close>
      from si Some "1.prems"
      have "pos = \<lparr> pos_start = si, pos_end = endIndex + length (tag_end tag),
                    contentStart = si + length (tag_start tag), contentEnd = endIndex,
                    pos_attr = tag_attr tag \<rparr> \<or>
            pos \<in> set (scanTag content tag (endIndex + length (tag_end tag)))"
        by (subst (asm) scanTag.simps) auto
      then show ?thesis
      proof
        assume p: "pos = \<lparr> pos_start = si, pos_end = endIndex + length (tag_end tag),
                    contentStart = si + length (tag_start tag), contentEnd = endIndex,
                    pos_attr = tag_attr tag \<rparr>"
        from indexOf_from_le [OF Some tag_end_nonempty] indexOf_bounds(1) [OF Some]
        show ?thesis by (simp add: p wfSpan_def)
      next
        assume "pos \<in> set (scanTag content tag (endIndex + length (tag_end tag)))"
        with "1.IH" [OF si Some] show ?thesis by blast
      qed
    qed
  qed
qed

lemma findTagPositions_wfSpan:
  "pos \<in> set (findTagPositions content) \<Longrightarrow> wfSpan content pos"
  by (auto simp: findTagPositions_def dest: scanTag_wfSpan)

lemma inMarker_sort_key: "inMarker (sort_key f ps) i = inMarker ps i"
  by (simp add: inMarker_def)

text \<open>
  Claim C3, amended: when the spans found in the content are disjoint, the concatenation
  of the values of the runs is the content without the characters of the opening and
  closing markers of these spans: every other character exactly once, in order.
\<close>

theorem C3_values_without_markers:
  assumes "spansDisjoint (sort_key pos_start (findTagPositions content))"
  shows "concat (map nodeValue (parseFormattedContent content)) =
         nths content {i. \<not> inMarker (findTagPositions content) i}"
proof (cases "findTagPositions content = []")
  case True
  have "nths content {i. \<not> inMarker [] i} = content"
    by (rule nths_all) (simp add: inMarker_def)
  with True show ?thesis by (simp add: parseFormattedContent_def)
next
  case False
  have "concat (map nodeValue (emitRuns content 0 (sort_key pos_start (findTagPositions content))))
      = nths (drop 0 content) {j. \<not> inMarker (sort_key pos_start (findTagPositions content)) (j + 0)}"
    using assms by (intro emitRuns_values) (auto simp: spansDisjoint_def findTagPositions_wfSpan)
  with False show ?thesis by (simp add: parseFormattedContent_def inMarker_sort_key)
qed

theorem C3_values_without_markers_witness:
  "spansDisjoint (sort_key pos_start (findTagPositions (js ''a<b>x</b><i>y</i>z''))) \<and>
   nths (js ''a<b>x</b><i>y</i>z'') {i. \<not> inMarker (findTagPositions (js ''a<b>x</b><i>y</i>z'')) i}
     = js ''axyz''"
proof -
  have h: "spansDisjoint (sort_key pos_start (findTagPositions (js ''a<b>x</b><i>y</i>z'')))"
    by (simp add: spansDisjoint_def eval_segmenter)
  have v: "concat (map nodeValue (parseFormattedContent (js ''a<b>x</b><i>y</i>z''))) = js ''axyz''"
    by (simp add: eval_segmenter)
  from C3_values_without_markers [OF h] h v show ?thesis by simp
qed

text \<open>
  Claim C3 as stated fails on nested spans: for \<open><b><i>x</i></b>\<close> the values are
  \<open><i>x</i>\<close>, \<open>x\<close> and \<open></b>\<close>, whose concatenation strips to \<open>xx\<close>, while the content
  strips to \<open>x\<close>.
\<close>

theorem C3_stripped_form_counterexample:
  "stripMarkers (concat (map nodeValue (parseFormattedContent (js ''<b><i>x</i></b>''))))
     \<noteq> stripMarkers (js ''<b><i>x</i></b>'')"
proof -
  have "concat (map nodeValue (parseFormattedContent (js ''<b><i>x</i></b>''))) = js ''<i>x</i>x</b>''"
    by (simp add: eval_segmenter)
  moreover have "stripMarkers (js ''<i>x</i>x</b>'') = js ''xx''"
    by (simp add: js_def markerAt_def allMarkers_def formattingTags_def)
  moreover have "stripMarkers (js ''<b><i>x</i></b>'') = js ''x''"
    by (simp add: js_def markerAt_def allMarkers_def formattingTags_def)
  ultimately show ?thesis by (simp add: js_def)
qed

section \<open>The block passes\<close>

lemma rootChildren_htmlToJson:
  "rootChildren (htmlToJson s) =
     map (\<lambda>(idx, c). paragraphNode c) (execAll (js ''p'') s 0)
     @ map (\<lambda>(idx, c). ListNode Unordered (processListItems c [])) (execAll (js ''ul'') s 0)
     @ map (\<lambda>(idx, c). ListNode Ordered (processListItems c [])) (execAll (js ''ol'') s 0)
     @ concat (map (\<lambda>level. map (\<lambda>(idx, c). Heading level (parseFormattedContent c))
                                (execAll (headingTag level) s 0)) [1..<7])"
  by (simp add: htmlToJson_children processHeadings_def processLists_def processParagraphs_def)

lemma matchHere_Nil: "matchHere tag [] = None"
  by (simp add: matchHere_def openTag_def js_def)

lemma searchFrom_None_iff:
  "searchFrom tag u = None \<longleftrightarrow> (\<forall>i. matchHere tag (drop i u) = None)"
proof (induction u)
  case Nil
  then show ?case by (simp add: matchHere_Nil)
next
  case (Cons x xs)
  show ?case
  proof (cases "matchHere tag (x # xs)")
    case (Some m)
    have "\<not> (\<forall>i. matchHere tag (drop i (x # xs)) = None)"
    proof
      assume "\<forall>i. matchHere tag (drop i (x # xs)) = None"
      then have "matchHere tag (drop 0 (x # xs)) = None" by (rule spec)
      with Some show False by simp
    qed
    with Some show ?thesis by (auto split: prod.splits)
  next
    case None
    have "(\<forall>i. matchHere tag (drop i (x # xs)) = None) \<longleftrightarrow> (\<forall>i. matchHere tag (drop i xs) = None)"
    proof
      assume a: "\<forall>i. matchHere tag (drop i (x # xs)) = None"
      show "\<forall>i. matchHere tag (drop i xs) = None"
      proof
        fix i from a have "matchHere tag (drop (Suc i) (x # xs)) = None" by blast
        then show "matchHere tag (drop i xs) = None" by simp
      qed
    next
      assume a: "\<forall>i. matchHere tag (drop i xs) = None"
      show "\<forall>i. matchHere tag (drop i (x # xs)) = None"
      proof
        fix i show "matchHere tag (drop i (x # xs)) = None"
          using a None by (cases i) simp_all
      qed
    qed
    with None Cons.IH show ?thesis by simp
  qed
qed

lemma execAll_Nil_iff: "execAll tag s 0 = [] \<longleftrightarrow> \<not> hasBlock tag s"
proof -
  have "execAll tag s 0 = [] \<longleftrightarrow> regexExec tag s 0 = None"
    by (subst execAll.simps) (simp split: option.splits)
  also have "\<dots> \<longleftrightarrow> searchFrom tag s = None"
    by (simp add: regexExec_def)
  finally show ?thesis by (auto simp: searchFrom_None_iff hasBlock_def)
qed

lemma noRecognizedBlock_iff:
  "noRecognizedBlock s \<longleftrightarrow> (\<forall>tag \<in> set blockTags. execAll tag s 0 = [])"
  by (simp add: noRecognizedBlock_def execAll_Nil_iff)

text \<open>
  Claim C6: when none of the patterns of \<open>p\<close>, \<open>ul\<close>, \<open>ol\<close> and \<open>h1\<close> to \<open>h6\<close> matches
  anywhere in the input, \<open>htmlToJson\<close> returns the root with no children.
\<close>

theorem C6_no_block_empty_root:
  "noRecognizedBlock htmlString \<Longrightarrow> htmlToJson htmlString = Root []"
  by (simp add: noRecognizedBlock_iff blockTags_def htmlToJson_children processHeadings_def
      processLists_def processParagraphs_def)

theorem C6_no_block_empty_root_witness:
  "noRecognizedBlock (js ''a <b>c</b>'') \<and> htmlToJson (js ''a <b>c</b>'') = Root []"
proof -
  have "\<forall>tag \<in> set blockTags. execAll tag (js ''a <b>c</b>'') 0 = []"
    by (simp add: blockTags_def eval_html)
  then have h: "noRecognizedBlock (js ''a <b>c</b>'')" by (simp only: noRecognizedBlock_iff)
  from C6_no_block_empty_root [OF h] h show ?thesis by simp
qed

lemma trim_blank:
  assumes "\<forall>ch \<in> set c. isSpace ch"
  shows "trim c = []"
proof -
  from assms have "dropWhile isSpace c = []" by (simp only: dropWhile_eq_Nil_conv)
  then show ?thesis by (simp only: trim_def rev.simps dropWhile.simps)
qed

lemma paragraphNode_blank:
  "blankContent c \<Longrightarrow> paragraphNode c = Paragraph [Text (js '' '') {}]"
proof -
  assume "blankContent c"
  then consider "\<forall>ch \<in> set c. isSpace ch" | "c = js ''<br>''"
    by (auto simp: blankContent_def)
  then show ?thesis
  proof cases
    case 1
    then show ?thesis by (simp add: paragraphNode_def trim_blank)
  next
    case 2
    have "trim (js ''<br>'') = js ''<br>''" by (simp add: trim_def js_def isSpace_def)
    with 2 show ?thesis by (simp add: paragraphNode_def)
  qed
qed

text \<open>
  Claim C4: for each match of the paragraph pattern whose inner content is empty, white
  space only, or the line-break tag, the child of the root built for that match is a
  paragraph with exactly one text run, of value \<open>" "\<close> and without a flag.
\<close>

theorem C4_blank_paragraph:
  assumes "i < length (execAll (js ''p'') htmlString 0)"
    and "blankContent (snd (execAll (js ''p'') htmlString 0 ! i))"
  shows "rootChildren (htmlToJson htmlString) ! i = Paragraph [Text (js '' '') {}]"
proof -
  from assms(1) have "rootChildren (htmlToJson htmlString) ! i
      = (\<lambda>(idx, c). paragraphNode c) (execAll (js ''p'') htmlString 0 ! i)"
    by (simp add: rootChildren_htmlToJson nth_append)
  also have "\<dots> = paragraphNode (snd (execAll (js ''p'') htmlString 0 ! i))"
    by (simp add: case_prod_beta)
  finally show ?thesis using assms(2) by (simp add: paragraphNode_blank)
qed

theorem C4_blank_paragraph_witness:
  "(0::nat) < length (execAll (js ''p'') (js ''<p> </p>'') 0) \<and>
   blankContent (snd (execAll (js ''p'') (js ''<p> </p>'') 0 ! 0)) \<and>
   rootChildren (htmlToJson (js ''<p> </p>'')) ! 0 = Paragraph [Text (js '' '') {}]"
proof -
  have e: "execAll (js ''p'') (js ''<p> </p>'') 0 = [(0, js '' '')]"
    by (simp add: eval_html)
  have b: "blankContent (js '' '')"
    by (simp add: blankContent_def js_def isSpace_def)
  from C4_blank_paragraph [of 0 "js ''<p> </p>''"] e b show ?thesis by simp
qed

lemma execAll_indices:
  "sorted_wrt (<) (map fst (execAll tag s lastIndex)) \<and>
   (\<forall>m \<in> set (execAll tag s lastIndex). lastIndex \<le> fst m)"
proof (induction tag s lastIndex rule: execAll.induct)
  case (1 tag s lastIndex)
  show ?case
  proof (cases "regexExec tag s lastIndex")
    case None
    then show ?thesis by (subst execAll.simps, subst (2) execAll.simps) simp
  next
    case (Some r)
    obtain idx lastIndex' group1 where r: "r = (idx, lastIndex', group1)"
      by (cases r) auto
    from Some r have ex: "regexExec tag s lastIndex = Some (idx, lastIndex', group1)" by simp
    have unfold: "execAll tag s lastIndex = (idx, group1) # execAll tag s lastIndex'"
      by (subst execAll.simps) (simp add: ex)
    from "1.IH" [OF Some, of idx "(lastIndex', group1)" lastIndex' group1] r
    have ih: "sorted_wrt (<) (map fst (execAll tag s lastIndex'))"
      "\<forall>m \<in> set (execAll tag s lastIndex'). lastIndex' \<le> fst m"
      by simp_all
    from regexExec_bounds [OF ex] have b: "lastIndex \<le> idx" "idx < lastIndex'" by simp_all
    from ih b show ?thesis unfolding unfold by fastforce
  qed
qed

lemma passRank_paragraphNode: "passRank (paragraphNode c) = 0"
  by (simp add: paragraphNode_def)

lemma levels: "[1..<7] = [1, 2, 3, 4, 5, 6::nat]"
  by (simp add: upt_rec)

lemma map_passRank_const:
  "(\<And>x. passRank (f x) = k) \<Longrightarrow> map passRank (map f xs) = replicate (length xs) k"
  by (induction xs) simp_all

lemma sorted_passRank: "sorted (map passRank (rootChildren (htmlToJson s)))"
proof -
  have p: "map passRank (map (\<lambda>(idx, c). paragraphNode c) xs) = replicate (length xs) 0"
    for xs :: "(nat \<times> jsstring) list"
    by (rule map_passRank_const) (simp add: case_prod_beta passRank_paragraphNode)
  have u: "map passRank (map (\<lambda>(idx, c). ListNode Unordered (processListItems c [])) xs)
      = replicate (length xs) 1" for xs :: "(nat \<times> jsstring) list"
    by (rule map_passRank_const) (simp add: case_prod_beta)
  have ol: "map passRank (map (\<lambda>(idx, c). ListNode Ordered (processListItems c [])) xs)
      = replicate (length xs) 2" for xs :: "(nat \<times> jsstring) list"
    by (rule map_passRank_const) (simp add: case_prod_beta)
  have h: "map passRank (map (\<lambda>(idx, c). Heading level (parseFormattedContent c)) xs)
      = replicate (length xs) (2 + level)" for xs :: "(nat \<times> jsstring) list" and level
    by (rule map_passRank_const) (simp add: case_prod_beta)
  show ?thesis
    unfolding rootChildren_htmlToJson levels
    by (simp only: map_append map_concat list.map concat.simps append_Nil2 p u ol h)
       (auto simp: sorted_append)
qed

text \<open>
  Claim C1: the children of the root are the paragraphs, then the unordered lists, then the
  ordered lists, then the headings of level 1 to 6, so their pass ranks are ascending;
  within a pass the matches come with strictly ascending positions in the document. The
  input \<open><p>a</p><h1>b</h1><p>c</p>\<close> gives paragraph, paragraph, heading.
\<close>

theorem C1_pass_order:
  "rootChildren (htmlToJson htmlString) =
     map (\<lambda>(idx, c). paragraphNode c) (execAll (js ''p'') htmlString 0)
     @ map (\<lambda>(idx, c). ListNode Unordered (processListItems c [])) (execAll (js ''ul'') htmlString 0)
     @ map (\<lambda>(idx, c). ListNode Ordered (processListItems c [])) (execAll (js ''ol'') htmlString 0)
     @ concat (map (\<lambda>level. map (\<lambda>(idx, c). Heading level (parseFormattedContent c))
                                (execAll (headingTag level) htmlString 0)) [1..<7]) \<and>
   sorted (map passRank (rootChildren (htmlToJson htmlString))) \<and>
   (\<forall>tag. sorted_wrt (<) (map fst (execAll tag htmlString 0))) \<and>
   htmlToJson (js ''<p>a</p><h1>b</h1><p>c</p>'') =
     Root [Paragraph [Text (js ''a'') {}], Paragraph [Text (js ''c'') {}],
           Heading 1 [Text (js ''b'') {}]]"
proof -
  have "htmlToJson (js ''<p>a</p><h1>b</h1><p>c</p>'') =
     Root [Paragraph [Text (js ''a'') {}], Paragraph [Text (js ''c'') {}],
           Heading 1 [Text (js ''b'') {}]]"
    by (simp add: eval_html)
  then show ?thesis
    using rootChildren_htmlToJson [of htmlString] sorted_passRank [of htmlString]
      execAll_indices [of _ htmlString 0]
    by simp
qed

section \<open>The boundary of htmlToJson\<close>






section \<open>The rows of a CSV file\<close>

lemma processRecords_length:
  "length (processRecords stringify htmlColumn records) = length records"
  by (simp add: processRecords_def)

lemma processRecords_nth:
  "i < length records \<Longrightarrow>
     processRecords stringify htmlColumn records ! i =
       processRecord stringify htmlColumn (records ! i) i"
  by (simp add: processRecords_def nth_enumerate_eq)

lemma convertCell_other_columns:
  "convertCell stringify htmlColumn record newRecord = Inr converted \<Longrightarrow>
     col \<noteq> htmlColumn \<Longrightarrow> converted col = newRecord col"
  by (auto simp: convertCell_def split: option.splits cell.splits if_splits)

lemma processRecord_other_columns:
  "col \<noteq> htmlColumn \<Longrightarrow> fst (processRecord stringify htmlColumn record index) col = record col"
  by (auto simp: processRecord_def Let_def split: sum.splits dest: convertCell_other_columns)

lemma convertCell_raises_hasProperty:
  "convertCell stringify htmlColumn record newRecord = Inl err \<Longrightarrow> hasProperty record htmlColumn"
  by (auto simp: convertCell_def getProperty_def hasProperty_def
           split: option.splits cell.splits if_splits)

lemma processRecord_raise:
  "convertCell stringify htmlColumn record record = Inl err \<Longrightarrow>
     processRecord stringify htmlColumn record index = (record, [WarnRowError (index + 1)])"
  by (simp add: processRecord_def convertCell_raises_hasProperty)

lemma processRecord_convert:
  assumes "record htmlColumn = Some (CellString htmlContent)" and "trim htmlContent \<noteq> []"
  shows "processRecord stringify htmlColumn record index =
         (record(htmlColumn \<mapsto> CellString (stringify (htmlToJson htmlContent))), [])"
proof -
  from assms(2) have "htmlContent \<noteq> []" by (auto simp: trim_def)
  with assms show ?thesis
    by (simp add: processRecord_def convertCell_def getProperty_def hasProperty_def)
qed

lemma processRecord_blank:
  assumes "record htmlColumn = Some (CellString htmlContent)" and "trim htmlContent = []"
  shows "processRecord stringify htmlColumn record index = (record, [])"
  using assms by (simp add: processRecord_def convertCell_def getProperty_def hasProperty_def)

text \<open>
  Claim C8: when the conversion of the HTML cell of row \<open>i\<close> raises, the record of that row
  is returned as it was, with the warning for row number \<open>i + 1\<close>. The other rows are
  processed as without the failure: the result has one record for each input record;
  every row whose HTML cell is a string that is not blank gets the serialization of its
  tree in that cell, with no warning; and every column other than the HTML column keeps
  its cell in every row.
\<close>

theorem C8_row_error_keeps_cell:
  assumes "i < length records"
    and "hasProperty (records ! i) htmlColumn"
    and "convertCell stringify htmlColumn (records ! i) (records ! i) = Inl err"
  shows "processRecords stringify htmlColumn records ! i = (records ! i, [WarnRowError (i + 1)]) \<and>
         length (processRecords stringify htmlColumn records) = length records \<and>
         (\<forall>j<length records.
            (\<forall>htmlContent.
               (records ! j) htmlColumn = Some (CellString htmlContent) \<and> trim htmlContent \<noteq> [] \<longrightarrow>
               processRecords stringify htmlColumn records ! j =
                 ((records ! j)(htmlColumn \<mapsto> CellString (stringify (htmlToJson htmlContent))), [])) \<and>
            (\<forall>col. col \<noteq> htmlColumn \<longrightarrow>
               fst (processRecords stringify htmlColumn records ! j) col = (records ! j) col))"
proof -
  from assms have "processRecords stringify htmlColumn records ! i
      = (records ! i, [WarnRowError (i + 1)])"
    by (simp add: processRecords_nth processRecord_raise)
  then show ?thesis
    by (simp add: processRecords_length processRecords_nth processRecord_other_columns
        processRecord_convert)
qed

theorem C8_row_error_keeps_cell_witness:
  "(0::nat) < length [[js ''Body HTML'' \<mapsto> CellOther True],
                      [js ''Body HTML'' \<mapsto> CellString (js ''<p>a</p>'')]] \<and>
   hasProperty [js ''Body HTML'' \<mapsto> CellOther True] (js ''Body HTML'') \<and>
   convertCell (\<lambda>n. concat (map nodeValue (textNodes n))) (js ''Body HTML'')
      [js ''Body HTML'' \<mapsto> CellOther True] [js ''Body HTML'' \<mapsto> CellOther True]
     = Inl TypeError \<and>
   processRecords (\<lambda>n. concat (map nodeValue (textNodes n))) (js ''Body HTML'')
      [[js ''Body HTML'' \<mapsto> CellOther True],
       [js ''Body HTML'' \<mapsto> CellString (js ''<p>a</p>'')]] ! 0
     = ([js ''Body HTML'' \<mapsto> CellOther True], [WarnRowError 1]) \<and>
   processRecords (\<lambda>n. concat (map nodeValue (textNodes n))) (js ''Body HTML'')
      [[js ''Body HTML'' \<mapsto> CellOther True],
       [js ''Body HTML'' \<mapsto> CellString (js ''<p>a</p>'')]] ! 1
     = ([js ''Body HTML'' \<mapsto> CellString (js ''a'')], []) \<and>
   hasProperty [js ''Body HTML'' \<mapsto> CellString (js ''<p>a</p>'')] (js ''toString'') \<and>
   convertCell (\<lambda>n. concat (map nodeValue (textNodes n))) (js ''toString'')
      [js ''Body HTML'' \<mapsto> CellString (js ''<p>a</p>'')]
      [js ''Body HTML'' \<mapsto> CellString (js ''<p>a</p>'')]
     = Inl TypeError \<and>
   processRecords (\<lambda>n. concat (map nodeValue (textNodes n))) (js ''toString'')
      [[js ''Body HTML'' \<mapsto> CellString (js ''<p>a</p>'')]] ! 0
     = ([js ''Body HTML'' \<mapsto> CellString (js ''<p>a</p>'')], [WarnRowError 1])"
proof -
  have p: "hasProperty [js ''Body HTML'' \<mapsto> CellOther True] (js ''Body HTML'')"
    by (simp add: hasProperty_def)
  have c: "convertCell (\<lambda>n. concat (map nodeValue (textNodes n))) (js ''Body HTML'')
      [js ''Body HTML'' \<mapsto> CellOther True] [js ''Body HTML'' \<mapsto> CellOther True]
     = Inl TypeError"
    by (simp add: convertCell_def getProperty_def)
  have t: "trim (js ''<p>a</p>'') \<noteq> []"
    by (simp add: trim_def js_def isSpace_def)
  have h: "htmlToJson (js ''<p>a</p>'') = Root [Paragraph [Text (js ''a'') {}]]"
    by (simp add: eval_html)
  have p': "hasProperty [js ''Body HTML'' \<mapsto> CellString (js ''<p>a</p>'')] (js ''toString'')"
    by (simp add: hasProperty_def objectPrototypeKeys_def)
  have c': "convertCell (\<lambda>n. concat (map nodeValue (textNodes n))) (js ''toString'')
      [js ''Body HTML'' \<mapsto> CellString (js ''<p>a</p>'')]
      [js ''Body HTML'' \<mapsto> CellString (js ''<p>a</p>'')]
     = Inl TypeError"
    by (simp add: convertCell_def getProperty_def objectPrototypeKeys_def js_def)
  have one: "(1::nat) < length [[js ''Body HTML'' \<mapsto> CellOther True],
                      [js ''Body HTML'' \<mapsto> CellString (js ''<p>a</p>'')]]"
    by simp
  note first = C8_row_error_keeps_cell [of 0
      "[[js ''Body HTML'' \<mapsto> CellOther True],
        [js ''Body HTML'' \<mapsto> CellString (js ''<p>a</p>'')]]"
      "js ''Body HTML''" "\<lambda>n. concat (map nodeValue (textNodes n))" TypeError]
  note second = C8_row_error_keeps_cell [of 0
      "[[js ''Body HTML'' \<mapsto> CellString (js ''<p>a</p>'')]]"
      "js ''toString''" "\<lambda>n. concat (map nodeValue (textNodes n))" TypeError]
  from first p c have r0: "processRecords (\<lambda>n. concat (map nodeValue (textNodes n))) (js ''Body HTML'')
      [[js ''Body HTML'' \<mapsto> CellOther True],
       [js ''Body HTML'' \<mapsto> CellString (js ''<p>a</p>'')]] ! 0
     = ([js ''Body HTML'' \<mapsto> CellOther True], [WarnRowError 1])"
    by simp
  from first p c have "\<forall>j<length [[js ''Body HTML'' \<mapsto> CellOther True],
        [js ''Body HTML'' \<mapsto> CellString (js ''<p>a</p>'')]].
      \<forall>htmlContent.
        ([[js ''Body HTML'' \<mapsto> CellOther True],
          [js ''Body HTML'' \<mapsto> CellString (js ''<p>a</p>'')]] ! j) (js ''Body HTML'')
           = Some (CellString htmlContent) \<and> trim htmlContent \<noteq> [] \<longrightarrow>
        processRecords (\<lambda>n. concat (map nodeValue (textNodes n))) (js ''Body HTML'')
          [[js ''Body HTML'' \<mapsto> CellOther True],
           [js ''Body HTML'' \<mapsto> CellString (js ''<p>a</p>'')]] ! j =
          (([[js ''Body HTML'' \<mapsto> CellOther True],
             [js ''Body HTML'' \<mapsto> CellString (js ''<p>a</p>'')]] ! j)
            (js ''Body HTML'' \<mapsto>
               CellString (concat (map nodeValue (textNodes (htmlToJson htmlContent))))), [])"
    by simp
  from this [rule_format, OF one, of "js ''<p>a</p>''"] t h
  have r1: "processRecords (\<lambda>n. concat (map nodeValue (textNodes n))) (js ''Body HTML'')
      [[js ''Body HTML'' \<mapsto> CellOther True],
       [js ''Body HTML'' \<mapsto> CellString (js ''<p>a</p>'')]] ! 1
     = ([js ''Body HTML'' \<mapsto> CellString (js ''a'')], [])"
    by simp
  from second p' c' have r2: "processRecords (\<lambda>n. concat (map nodeValue (textNodes n))) (js ''toString'')
      [[js ''Body HTML'' \<mapsto> CellString (js ''<p>a</p>'')]] ! 0
     = ([js ''Body HTML'' \<mapsto> CellString (js ''<p>a</p>'')], [WarnRowError 1])"
    by simp
  from p c r0 r1 p' c' r2 show ?thesis by simp
qed

text \<open>
  Claim C10: a record whose HTML cell is an empty or white-space-only string is returned
  unchanged, with no warning: the cell is not replaced by the serialization of a tree.
\<close>

theorem C10_blank_cell_unchanged:
  assumes "i < length records"
    and "(records ! i) htmlColumn = Some (CellString htmlContent)"
    and "trim htmlContent = []"
  shows "processRecords stringify htmlColumn records ! i = (records ! i, [])"
  using assms by (simp add: processRecords_nth processRecord_blank)

theorem C10_blank_cell_unchanged_witness:
  "(0::nat) < length [[js ''Body HTML'' \<mapsto> CellString (js ''  '')]] \<and>
   ([[js ''Body HTML'' \<mapsto> CellString (js ''  '')]] ! 0) (js ''Body HTML'')
      = Some (CellString (js ''  '')) \<and>
   trim (js ''  '') = [] \<and>
   processRecords (\<lambda>n. []) (js ''Body HTML'') [[js ''Body HTML'' \<mapsto> CellString (js ''  '')]] ! 0
     = ([js ''Body HTML'' \<mapsto> CellString (js ''  '')], [])"
proof -
  have t: "trim (js ''  '') = []" by (simp add: trim_def js_def isSpace_def)
  from C10_blank_cell_unchanged [of 0 "[[js ''Body HTML'' \<mapsto> CellString (js ''  '')]]"
      "js ''Body HTML''" "js ''  ''" "\<lambda>n. []"] t
  show ?thesis by simp
qed

end
